theory Spec2Isabelle
  imports Complex_Main
begin

section \<open>Event detection on edge time series (src/ev.py)\<close>

text \<open>
  The arrays of the program are modelled as lists: a vector is a \<open>real list\<close>, a
  two-dimensional array of shape (T, N) is the list of its T rows. The entries are the
  real numbers the floating-point values stand for, except in the stage that replaces
  the values that are not finite, where these are values of their own. Where the other
  stages produce not-a-number themselves (the mean of an empty array, a quotient by a
  zero total) the case is written out: \<open>None\<close> in \<open>p_values\<close>, a guard in
  \<open>hist_threshold\<close>. The exceptions numpy raises are the values of \<open>error\<close>.

  The stages follow \<^verbatim>\<open>event_detection\<close> from the matrix \<open>z_ts\<close> on. Reading the
  images and drawing the random shifts of \<^verbatim>\<open>rss_surr\<close> belong to libraries and to the
  environment, and z-scoring is an argument where a stage needs it; what the workers
  return (\<open>results\<close>, \<open>hist\<close>) is an argument of the stage that consumes it.
\<close>

datatype error = IndexError | ValueError

subsection \<open>Reading arrays\<close>

text \<open>
  \<^verbatim>\<open>xs[is]\<close> with a list of positions (\<^verbatim>\<open>rss[idxevent]\<close>, and \<^verbatim>\<open>y[:, u]\<close> on every row):
  IndexError when a position is out of range.
\<close>

definition take_at :: "real list \<Rightarrow> nat list \<Rightarrow> error + real list" where
  "take_at xs is =
     (if list_all (\<lambda>i. i < length xs) is then Inr (map (\<lambda>i. xs ! i) is) else Inl IndexError)"

text \<open>A loop that stops at the first exception.\<close>

fun for_each :: "('a \<Rightarrow> error + 'b) \<Rightarrow> 'a list \<Rightarrow> error + 'b list" where
  "for_each f [] = Inr []"
| "for_each f (x # xs) =
     (case f x of
        Inl e \<Rightarrow> Inl e
      | Inr y \<Rightarrow> (case for_each f xs of Inl e \<Rightarrow> Inl e | Inr ys \<Rightarrow> Inr (y # ys)))"

text \<open>
  Assigning a vector to a slice of length \<open>n\<close> (\<^verbatim>\<open>rssr[:, irand] = ...\<close>,
  \<^verbatim>\<open>ets_hist[irand, :] = ...\<close>): a vector of that length is stored as it is, a vector of
  length one is broadcast, any other length raises ValueError.
\<close>

definition fit_to :: "nat \<Rightarrow> 'a list \<Rightarrow> error + 'a list" where
  "fit_to n v =
     (if length v = n then Inr v
      else if length v = 1 then Inr (replicate n (hd v))
      else Inl ValueError)"

subsection \<open>Edge time series and RSS (calculate_ets; event_detection, line 81)\<close>

text \<open>
  \<^verbatim>\<open>np.argwhere(np.triu(np.ones(n), 1))\<close>: the positions (i, j) of the n x n grid with
  \<open>i < j\<close>, row by row.
\<close>

definition triu_pairs :: "nat \<Rightarrow> (nat \<times> nat) list" where
  "triu_pairs n = concat (map (\<lambda>i. map (\<lambda>j. (i, j)) (filter (\<lambda>j. i < j) [0..<n])) [0..<n])"

text \<open>\<^verbatim>\<open>y[:, u]\<close>: the columns of \<open>y\<close> at the positions \<open>u\<close>.\<close>

definition take_cols :: "real list list \<Rightarrow> nat list \<Rightarrow> error + real list list" where
  "take_cols y u = for_each (\<lambda>row. take_at row u) y"

text \<open>
  \<^verbatim>\<open>calculate_ets(y, n)\<close>. Both callers pass the number of columns of \<open>y\<close> as \<open>n\<close>.
\<close>

definition calculate_ets ::
  "real list list \<Rightarrow> nat \<Rightarrow> error + (real list list \<times> nat list \<times> nat list)" where
  "calculate_ets y n =
     (let uv = triu_pairs n; u = map fst uv; v = map snd uv
      in case take_cols y u of
           Inl e \<Rightarrow> Inl e
         | Inr yu \<Rightarrow>
             (case take_cols y v of
                Inl e \<Rightarrow> Inl e
              | Inr yv \<Rightarrow>
                  Inr (map (\<lambda>(a, b). map (\<lambda>(p, q). p * q) (zip a b)) (zip yu yv), u, v)))"

text \<open>\<^verbatim>\<open>np.sqrt(np.sum(np.square(ets), axis=1))\<close>.\<close>

definition rss_of :: "real list list \<Rightarrow> real list" where
  "rss_of ets = map (\<lambda>row. sqrt (sum_list (map (\<lambda>x. x\<^sup>2) row))) ets"

subsection \<open>The null RSS matrix (event_detection, lines 84-98)\<close>

text \<open>
  \<open>results\<close> is the list the workers return, one triple (RSS vector, least edge value,
  greatest edge value) per trial; \<open>numrand\<close> is its length (100 in the program).
  \<^verbatim>\<open>rssr[:, irand] = results[irand][0]\<close> stores the vector in column \<open>irand\<close>.
\<close>

definition set_col :: "real list list \<Rightarrow> nat \<Rightarrow> real list \<Rightarrow> error + real list list" where
  "set_col rssr irand v =
     (case fit_to (length rssr) v of
        Inl e \<Rightarrow> Inl e
      | Inr w \<Rightarrow> Inr (map (\<lambda>(row, x). row[irand := x]) (zip rssr w)))"

fun fill_cols ::
  "real list list \<Rightarrow> (real list \<times> real \<times> real) list \<Rightarrow> nat list \<Rightarrow> error + real list list" where
  "fill_cols rssr results [] = Inr rssr"
| "fill_cols rssr results (irand # rest) =
     (case set_col rssr irand (fst (results ! irand)) of
        Inl e \<Rightarrow> Inl e
      | Inr rssr' \<Rightarrow> fill_cols rssr' results rest)"

text \<open>
  \<open>auc\<close> is the test \<^verbatim>\<open>"AUC" in surrprefix\<close>. In that mode \<^verbatim>\<open>rssr[0, :] = 0\<close> overwrites
  row 0, and raises IndexError when there is no row.
\<close>

definition null_rss ::
  "bool \<Rightarrow> nat \<Rightarrow> (real list \<times> real \<times> real) list \<Rightarrow> error + real list list" where
  "null_rss auc t results =
     (let numrand = length results
      in case fill_cols (replicate t (replicate numrand 0)) results [0..<numrand] of
           Inl e \<Rightarrow> Inl e
         | Inr rssr \<Rightarrow>
             if auc
             then (if t = 0 then Inl IndexError else Inr (rssr[0 := replicate numrand 0]))
             else Inr rssr)"

text \<open>The test \<^verbatim>\<open>"AUC" in surrprefix\<close>: the text occurs somewhere in the prefix.\<close>

fun starts_with :: "string \<Rightarrow> string \<Rightarrow> bool" where
  "starts_with [] s = True"
| "starts_with (c # cs) [] = False"
| "starts_with (c # cs) (d # ds) = (c = d \<and> starts_with cs ds)"

fun contains_str :: "string \<Rightarrow> string \<Rightarrow> bool" where
  "contains_str sub [] = (sub = [])"
| "contains_str sub (c # cs) = (starts_with sub (c # cs) \<or> contains_str sub cs)"

definition auc_mode :: "string \<Rightarrow> bool" where
  "auc_mode surrprefix = contains_str ''AUC'' surrprefix"

subsection \<open>Empirical p-values (event_detection, lines 107-110)\<close>

text \<open>\<^verbatim>\<open>rssr.flatten()\<close>: the rows of the T x numrand array one after the other.\<close>

definition flatten :: "real list list \<Rightarrow> real list" where
  "flatten rssr = concat rssr"

text \<open>
  \<^verbatim>\<open>np.mean(rssr_flat >= x)\<close>: the number of entries that are at least \<open>x\<close> over the
  number of entries. The mean of an empty array is not a number: \<open>None\<close>.
\<close>

definition mean_ge :: "real list \<Rightarrow> real \<Rightarrow> real option" where
  "mean_ge rssr_flat x =
     (if rssr_flat = [] then None
      else Some (real (length (filter (\<lambda>y. x \<le> y) rssr_flat)) / real (length rssr_flat)))"

text \<open>The loop \<^verbatim>\<open>for i in range(t): p[i] = np.mean(rssr_flat >= rss[i])\<close>.\<close>

definition p_values :: "real list \<Rightarrow> real list list \<Rightarrow> real option list" where
  "p_values rss rssr =
     (let rssr_flat = flatten rssr
      in map (\<lambda>i. mean_ge rssr_flat (rss ! i)) [0..<length rss])"

subsection \<open>Candidate frames and segmentation (event_detection, lines 112-132)\<close>

text \<open>
  \<^verbatim>\<open>idx = np.argwhere(p < pcrit)[:, 0]\<close>: the positions of \<open>p\<close>, in ascending order, whose
  value is below \<open>pcrit\<close>. A comparison with not-a-number is false.
\<close>

definition candidates :: "real option list \<Rightarrow> real \<Rightarrow> nat list" where
  "candidates p pcrit =
     filter (\<lambda>i. case p ! i of None \<Rightarrow> False | Some x \<Rightarrow> x < pcrit) [0..<length p]"

text \<open>\<^verbatim>\<open>dff = idx.T - range(len(idx))\<close>, in signed integers.\<close>

definition dff_of :: "nat list \<Rightarrow> int list" where
  "dff_of idx = map (\<lambda>(i, k). int i - int k) (zip idx [0..<length idx])"

text \<open>\<^verbatim>\<open>np.unique\<close>: the distinct values in ascending order.\<close>

definition unique :: "int list \<Rightarrow> int list" where
  "unique xs = sort (remdups xs)"

text \<open>\<^verbatim>\<open>idx[dff.T == unq[ievent].T]\<close>: the members of \<open>idx\<close> at the positions where \<open>dff\<close> has the value.\<close>

definition idxevent_of :: "nat list \<Rightarrow> int list \<Rightarrow> int \<Rightarrow> nat list" where
  "idxevent_of idx dff d = map fst (filter (\<lambda>(i, d'). d' = d) (zip idx dff))"

text \<open>
  \<^verbatim>\<open>np.argmax\<close>: the first position of the greatest value; ValueError on an empty
  array. \<open>argmax_from best bi k xs\<close> scans \<open>xs\<close>, whose first element has position \<open>k\<close>,
  with the greatest value so far \<open>best\<close> at position \<open>bi\<close>.
\<close>

fun argmax_from :: "real \<Rightarrow> nat \<Rightarrow> nat \<Rightarrow> real list \<Rightarrow> nat" where
  "argmax_from best bi k [] = bi"
| "argmax_from best bi k (x # xs) =
     (if best < x then argmax_from x k (Suc k) xs else argmax_from best bi (Suc k) xs)"

definition argmax :: "real list \<Rightarrow> error + nat" where
  "argmax xs = (case xs of [] \<Rightarrow> Inl ValueError | x # xs' \<Rightarrow> Inr (argmax_from x 0 1 xs'))"

text \<open>The body of the loop over the events: the member of \<open>idxevent\<close> with the greatest RSS.\<close>

definition peak_of :: "real list \<Rightarrow> nat list \<Rightarrow> error + nat" where
  "peak_of rss idxevent =
     (case take_at rss idxevent of
        Inl e \<Rightarrow> Inl e
      | Inr rssevent \<Rightarrow>
          (case argmax rssevent of
             Inl e \<Rightarrow> Inl e
           | Inr idxmax \<Rightarrow> Inr (idxevent ! idxmax)))"

text \<open>The segments the program forms: one per distinct value of \<open>dff\<close>, in ascending order of the value.\<close>

definition segments_of :: "nat list \<Rightarrow> nat list list" where
  "segments_of idx = (let dff = dff_of idx; unq = unique dff in map (idxevent_of idx dff) unq)"

text \<open>The branch \<^verbatim>\<open>if segments:\<close> and its \<^verbatim>\<open>else\<close>.\<close>

definition find_peaks :: "bool \<Rightarrow> real list \<Rightarrow> nat list \<Rightarrow> error + nat list" where
  "find_peaks segments rss idx =
     (if segments then for_each (peak_of rss) (segments_of idx) else Inr idx)"

text \<open>
  The explicit scan of the specification (section 9): a new run starts wherever the next
  index is not the successor of the current one (\<open>idx[k+1] == idx[k]+1\<close> fails); the
  peak of each run is found as in the program.
\<close>

fun runs_scan :: "nat list \<Rightarrow> nat list list" where
  "runs_scan [] = []"
| "runs_scan [x] = [[x]]"
| "runs_scan (x # y # ys) =
     (if y = x + 1
      then (case runs_scan (y # ys) of r # rs \<Rightarrow> (x # r) # rs | [] \<Rightarrow> [[x]])
      else [x] # runs_scan (y # ys))"

definition find_peaks_scan :: "real list \<Rightarrow> nat list \<Rightarrow> error + nat list" where
  "find_peaks_scan rss idx = for_each (peak_of rss) (runs_scan idx)"

subsection \<open>Thresholding the edge matrix (threshold_ets_matrix)\<close>

text \<open>
  A row position of numpy: \<open>0 \<dots> T - 1\<close> as it is, \<open>-T \<dots> -1\<close> counted from the end,
  anything else IndexError.
\<close>

definition norm_index :: "nat \<Rightarrow> int \<Rightarrow> error + nat" where
  "norm_index t i =
     (if 0 \<le> i \<and> i < int t then Inr (nat i)
      else if - int t \<le> i \<and> i < 0 then Inr (nat (i + int t))
      else Inl IndexError)"

text \<open>
  \<^verbatim>\<open>np.zeros(shape)\<close>, then the selected rows copied from \<open>ets_matrix\<close>, then every entry
  below \<open>thr\<close> set to zero.
\<close>

definition threshold_ets_matrix ::
  "real list list \<Rightarrow> int list \<Rightarrow> real \<Rightarrow> error + real list list" where
  "threshold_ets_matrix ets_matrix selected_idxs thr =
     (case for_each (norm_index (length ets_matrix)) selected_idxs of
        Inl e \<Rightarrow> Inl e
      | Inr rows \<Rightarrow>
          (let zeros = map (\<lambda>row. replicate (length row) 0) ets_matrix;
               copied = fold (\<lambda>r m. m[r := ets_matrix ! r]) rows zeros
           in Inr (map (map (\<lambda>x. if x < thr then 0 else x)) copied)))"

subsection \<open>The percentile of the pooled histogram (surrogates_to_array)\<close>

text \<open>
  \<open>hist\<close> is the list the workers return, one pair (counts of the bins, edges of the
  bins) per trial. \<^verbatim>\<open>ets_hist[irand, :] = hist[irand][0]\<close> fills the rows of \<open>ets_hist\<close>;
  \<^verbatim>\<open>np.sum(ets_hist, axis=0)\<close> adds them bin by bin.
\<close>

definition fill_rows :: "nat \<Rightarrow> (nat list \<times> real list) list \<Rightarrow> error + nat list list" where
  "fill_rows nbins hist = for_each (\<lambda>h. fit_to nbins (fst h)) hist"

definition col_sums :: "nat \<Rightarrow> nat list list \<Rightarrow> nat list" where
  "col_sums nbins ets_hist = map (\<lambda>k. sum_list (map (\<lambda>row. row ! k) ets_hist)) [0..<nbins]"

text \<open>\<^verbatim>\<open>np.cumsum\<close>: the running sums.\<close>

fun cumsum_from :: "real \<Rightarrow> real list \<Rightarrow> real list" where
  "cumsum_from acc [] = []"
| "cumsum_from acc (x # xs) = (acc + x) # cumsum_from (acc + x) xs"

definition cumsum :: "real list \<Rightarrow> real list" where
  "cumsum xs = cumsum_from 0 xs"

text \<open>
  Lines 206-208. \<open>cumsum_percentile\<close> is \<^verbatim>\<open>np.cumsum(s) / np.sum(s) * 100\<close>. When the
  counts add up to zero every quotient is not-a-number, no comparison holds and the
  position is 0.
\<close>

definition cumsum_percentile :: "nat list \<Rightarrow> real list" where
  "cumsum_percentile ets_hist_sum =
     map (\<lambda>c. c / real (sum_list ets_hist_sum) * 100) (cumsum (map real ets_hist_sum))"

definition hist_threshold :: "real list \<Rightarrow> nat list \<Rightarrow> real \<Rightarrow> error + real" where
  "hist_threshold bin_edges ets_hist_sum percentile =
     (let k = (if sum_list ets_hist_sum = 0 then 0
               else length (filter (\<lambda>c. c \<le> percentile) (cumsum_percentile ets_hist_sum)))
      in if k < length bin_edges then Inr (bin_edges ! k) else Inl IndexError)"

definition surrogates_to_array ::
  "(nat list \<times> real list) list \<Rightarrow> nat \<Rightarrow> real \<Rightarrow> error + real" where
  "surrogates_to_array hist nbins percentile =
     (case fill_rows nbins hist of
        Inl e \<Rightarrow> Inl e
      | Inr ets_hist \<Rightarrow>
          (case hist of
             [] \<Rightarrow> Inl IndexError
           | h0 # _ \<Rightarrow> hist_threshold (snd h0) (col_sums nbins ets_hist) percentile))"


subsection \<open>The statistics of a surrogate trial (rss_surr, lines 47-53)\<close>

text \<open>
  \<^verbatim>\<open>np.min\<close> and \<^verbatim>\<open>np.max\<close> of an array: ValueError when the array has no element.
\<close>

definition np_min :: "real list \<Rightarrow> error + real" where
  "np_min xs = (case xs of [] \<Rightarrow> Inl ValueError | x # xs' \<Rightarrow> Inr (fold min xs' x))"

definition np_max :: "real list \<Rightarrow> error + real" where
  "np_max xs = (case xs of [] \<Rightarrow> Inl ValueError | x # xs' \<Rightarrow> Inr (fold max xs' x))"

text \<open>
  The end of \<^verbatim>\<open>rss_surr\<close>, from the series \<open>zr\<close> of the trial on (the shifted copy of
  \<open>z_ts\<close>, or the series read for the trial): the edge series \<open>etsr\<close>, its RSS, and the
  least and greatest entry of \<open>etsr\<close>.
\<close>

definition rss_surr_stats ::
  "real list list \<Rightarrow> nat list \<Rightarrow> nat list \<Rightarrow> error + (real list \<times> real \<times> real)" where
  "rss_surr_stats zr u v =
     (case take_cols zr u of
        Inl e \<Rightarrow> Inl e
      | Inr zu \<Rightarrow>
          (case take_cols zr v of
             Inl e \<Rightarrow> Inl e
           | Inr zv \<Rightarrow>
               (let etsr = map (\<lambda>(a, b). map (\<lambda>(p, q). p * q) (zip a b)) (zip zu zv);
                    rssr = rss_of etsr
                in case np_min (concat etsr) of
                     Inl e \<Rightarrow> Inl e
                   | Inr lo \<Rightarrow>
                       (case np_max (concat etsr) of
                          Inl e \<Rightarrow> Inl e
                        | Inr hi \<Rightarrow> Inr (rssr, lo, hi)))))"

subsection \<open>Reading a surrogate series (rss_surr, lines 34-40)\<close>






subsection \<open>Auxiliary definitions for the proofs\<close>

text \<open>The differences \<open>dff\<close> of a list whose first element stands at position \<open>k\<close>.\<close>

definition dff_from :: "nat \<Rightarrow> nat list \<Rightarrow> int list" where
  "dff_from k idx = map (\<lambda>(i, j). int i - int j) (zip idx [k..<k + length idx])"

text \<open>The rows a list of selected positions addresses in an array of \<open>t\<close> rows.\<close>

definition addressed :: "nat \<Rightarrow> int list \<Rightarrow> nat set" where
  "addressed t selected_idxs = {r. r < t \<and> (int r \<in> set selected_idxs \<or> int r - int t \<in> set selected_idxs)}"

text \<open>The edge series written entry by entry.\<close>

definition ets_of :: "nat \<Rightarrow> real list list \<Rightarrow> real list list" where
  "ets_of n y = map (\<lambda>row. map (\<lambda>(i, j). row ! i * row ! j) (triu_pairs n)) y"


section \<open>Properties\<close>

subsection \<open>The empirical p-value\<close>

lemma count_concat_card:
  "length (filter P (concat xss)) =
     card {(i, j). i < length xss \<and> j < length (xss ! i) \<and> P (xss ! i ! j)}"
proof -
  have "length (filter P (concat xss)) = sum_list (map (\<lambda>xs. length (filter P xs)) xss)"
    by (induction xss) simp_all
  also have "\<dots> = (\<Sum>i<length xss. card {j. j < length (xss ! i) \<and> P (xss ! i ! j)})"
    by (simp add: sum_list_sum_nth length_filter_conv_card atLeast0LessThan)
  also have "\<dots> = card (SIGMA i:{..<length xss}. {j. j < length (xss ! i) \<and> P (xss ! i ! j)})"
    by (subst card_SigmaI) simp_all
  also have "(SIGMA i:{..<length xss}. {j. j < length (xss ! i) \<and> P (xss ! i ! j)})
      = {(i, j). i < length xss \<and> j < length (xss ! i) \<and> P (xss ! i ! j)}"
    by auto
  finally show ?thesis .
qed

lemma length_concat_shape:
  "\<forall>row\<in>set xss. length row = n \<Longrightarrow> length (concat xss) = length xss * n"
  by (induction xss) simp_all

text \<open>
  Claim C1. The empirical p-value at time \<open>t\<close> is the fraction of all the entries of the
  pooled null matrix, over every time point \<open>i\<close> and every trial \<open>j\<close>, that are at least
  the observed \<open>rss ! t\<close>: the reference set ranges over the whole T x numrand matrix and
  not over the row of \<open>t\<close>.
\<close>

theorem p_value_is_pooled_fraction:
  assumes shape: "length rssr = length rss" "\<forall>row\<in>set rssr. length row = numrand"
    and pos: "0 < numrand" and t: "t < length rss"
  shows "p_values rss rssr ! t =
     Some (real (card {(i, j). i < length rss \<and> j < numrand \<and> rss ! t \<le> rssr ! i ! j})
           / real (length rss * numrand))"
proof -
  have len: "length (concat rssr) = length rss * numrand"
    using length_concat_shape [of rssr numrand] shape by simp
  have "rss \<noteq> []" using t by auto
  then have "length (concat rssr) \<noteq> 0" using len pos by simp
  then have ne: "concat rssr \<noteq> []" by fastforce
  have "{(i, j). i < length rssr \<and> j < length (rssr ! i) \<and> rss ! t \<le> rssr ! i ! j}
      = {(i, j). i < length rss \<and> j < numrand \<and> rss ! t \<le> rssr ! i ! j}"
    using shape by auto
  then show ?thesis
    using t ne len by (simp add: p_values_def Let_def flatten_def mean_ge_def count_concat_card)
qed

theorem p_value_is_pooled_fraction_witness:
  "p_values [3, 1] [[1, 2], [3, 4]] ! 0 =
     Some (real (card {(i, j). i < length [3, 1 :: real] \<and> j < 2
                         \<and> [3, 1] ! 0 \<le> [[1, 2], [3, 4 :: real]] ! i ! j})
           / real (length [3, 1 :: real] * 2))"
  using p_value_is_pooled_fraction [of "[[1, 2], [3, 4]]" "[3, 1]" 2 0] by simp

lemma count_ge_antimono:
  "(a::real) \<le> b \<Longrightarrow> length (filter (\<lambda>y. b \<le> y) xs) \<le> length (filter (\<lambda>y. a \<le> y) xs)"
  by (induction xs) auto

lemma p_value_defined:
  "t < length rss \<Longrightarrow> flatten rssr \<noteq> [] \<Longrightarrow>
     p_values rss rssr ! t =
       Some (real (length (filter (\<lambda>y. rss ! t \<le> y) (flatten rssr))) / real (length (flatten rssr)))"
  by (simp add: p_values_def Let_def mean_ge_def)

text \<open>
  Claim C4. The empirical p-value does not increase when the observed RSS increases: for
  two time points with \<open>rss ! t2 \<le> rss ! t1\<close> both p-values are numbers and
  \<open>p(t1) \<le> p(t2)\<close>. The pooled null distribution is not empty (it has T times 100
  entries in the program).
\<close>

theorem p_value_antimono:
  assumes "t1 < length rss" "t2 < length rss" and "flatten rssr \<noteq> []"
    and "rss ! t2 \<le> rss ! t1"
  shows "\<exists>p1 p2. p_values rss rssr ! t1 = Some p1 \<and> p_values rss rssr ! t2 = Some p2 \<and> p1 \<le> p2"
proof -
  have "real (length (filter (\<lambda>y. rss ! t1 \<le> y) (flatten rssr))) / real (length (flatten rssr))
      \<le> real (length (filter (\<lambda>y. rss ! t2 \<le> y) (flatten rssr))) / real (length (flatten rssr))"
    using count_ge_antimono [OF assms(4), of "flatten rssr"] by (simp add: divide_right_mono)
  then show ?thesis
    using p_value_defined [OF assms(1,3)] p_value_defined [OF assms(2,3)] by simp
qed

theorem p_value_antimono_witness:
  "\<exists>p1 p2. p_values [3, 1] [[1, 2], [3, 4]] ! 0 = Some p1
         \<and> p_values [3, 1] [[1, 2], [3, 4]] ! 1 = Some p2 \<and> p1 \<le> p2"
  using p_value_antimono [of 0 "[3, 1]" 1 "[[1, 2], [3, 4]]"] by (simp add: flatten_def)

subsection \<open>Segmentation\<close>

lemma dff_of_from: "dff_of idx = dff_from 0 idx"
  by (simp add: dff_of_def dff_from_def)

lemma dff_from_Nil: "dff_from k [] = []"
  by (simp add: dff_from_def)

lemma dff_from_Cons: "dff_from k (x # xs) = (int x - int k) # dff_from (Suc k) xs"
proof -
  have "[k..<k + length (x # xs)] = k # [Suc k..<Suc k + length xs]"
    by (simp add: upt_rec [of k] del: upt_Suc)
  then show ?thesis by (simp add: dff_from_def del: upt_Suc)
qed

lemma length_dff_from: "length (dff_from k xs) = length xs"
  by (simp add: dff_from_def)

lemma dff_from_lower:
  "sorted_wrt (<) xs \<Longrightarrow> \<forall>x\<in>set xs. a \<le> x \<Longrightarrow> \<forall>d\<in>set (dff_from k xs). int a - int k \<le> d"
proof (induction xs arbitrary: a k)
  case Nil
  show ?case by (simp add: dff_from_Nil)
next
  case (Cons x xs)
  have "\<forall>y\<in>set xs. Suc x \<le> y" using Cons.prems(1) by auto
  with Cons.IH [of "Suc x" "Suc k"] Cons.prems(1)
  have "\<forall>d\<in>set (dff_from (Suc k) xs). int (Suc x) - int (Suc k) \<le> d" by simp
  moreover have "a \<le> x" using Cons.prems(2) by simp
  ultimately show ?case by (auto simp: dff_from_Cons)
qed

lemma unique_sorted: "sorted (unique xs)"
  by (simp add: unique_def)

lemma unique_distinct: "distinct (unique xs)"
  by (simp add: unique_def)

lemma set_unique: "set (unique xs) = set xs"
  by (simp add: unique_def)

lemma unique_Cons_new:
  assumes "\<forall>d\<in>set ds. d0 < d"
  shows "unique (d0 # ds) = d0 # unique ds"
proof (rule sorted_distinct_set_unique)
  show "sorted (unique (d0 # ds))" by (rule unique_sorted)
  show "distinct (unique (d0 # ds))" by (rule unique_distinct)
  show "sorted (d0 # unique ds)" using assms by (auto simp: unique_sorted set_unique less_imp_le)
  show "distinct (d0 # unique ds)" using assms by (auto simp: unique_distinct set_unique)
  show "set (unique (d0 # ds)) = set (d0 # unique ds)" by (simp add: set_unique)
qed

lemma unique_Cons_old:
  assumes "d0 \<in> set ds"
  shows "unique (d0 # ds) = unique ds"
proof (rule sorted_distinct_set_unique)
  show "set (unique (d0 # ds)) = set (unique ds)" using assms by (auto simp: set_unique)
qed (simp_all add: unique_sorted unique_distinct)

lemma unique_min_hd:
  assumes "d0 \<in> set ds" "\<forall>d\<in>set ds. d0 \<le> d"
  shows "\<exists>rest. unique ds = d0 # rest \<and> d0 \<notin> set rest"
proof (cases "unique ds")
  case Nil
  with set_unique [of ds] assms(1) show ?thesis by simp
next
  case (Cons u rest)
  have u_in: "u \<in> set ds" using set_unique [of ds] Cons by auto
  have "d0 \<in> set (u # rest)" using set_unique [of ds] Cons assms(1) by simp
  moreover have "\<forall>r\<in>set rest. u \<le> r" using unique_sorted [of ds] Cons by simp
  ultimately have "u \<le> d0" by auto
  with assms(2) u_in have "u = d0" by fastforce
  moreover have "u \<notin> set rest" using unique_distinct [of ds] Cons by simp
  ultimately show ?thesis using Cons by simp
qed

lemma idxevent_of_Cons:
  "idxevent_of (x # xs) (d0 # ds) u =
     (if d0 = u then x # idxevent_of xs ds u else idxevent_of xs ds u)"
  by (simp add: idxevent_of_def)

lemma idxevent_of_absent: "u \<notin> set ds \<Longrightarrow> idxevent_of xs ds u = []"
  by (auto simp: idxevent_of_def filter_empty_conv dest: set_zip_rightD)

lemma segments_from_scan:
  "sorted_wrt (<) idx \<Longrightarrow>
     map (idxevent_of idx (dff_from k idx)) (unique (dff_from k idx)) = runs_scan idx"
proof (induction idx arbitrary: k rule: runs_scan.induct)
  case 1
  show ?case by (simp add: dff_from_Nil unique_def)
next
  case (2 x)
  show ?case by (simp add: dff_from_Cons dff_from_Nil unique_def idxevent_of_def)
next
  case (3 x y ys)
  define d0 where "d0 = int x - int k"
  define ds where "ds = dff_from (Suc k) (y # ys)"
  have dff: "dff_from k (x # y # ys) = d0 # ds"
    by (simp add: d0_def ds_def dff_from_Cons)
  have sorted_tl: "sorted_wrt (<) (y # ys)" and xy: "x < y"
    using "3.prems" by simp_all
  have hd_ds: "ds = (int y - int (Suc k)) # dff_from (Suc (Suc k)) ys"
    by (simp add: ds_def dff_from_Cons)
  have "\<forall>z\<in>set (y # ys). y \<le> z" using sorted_tl by auto
  then have lower: "\<forall>d\<in>set ds. int y - int (Suc k) \<le> d"
    unfolding ds_def by (rule dff_from_lower [OF sorted_tl])
  show ?case
  proof (cases "y = x + 1")
    case True
    have IH: "map (idxevent_of (y # ys) ds) (unique ds) = runs_scan (y # ys)"
      unfolding ds_def using "3.IH"(1) [OF True sorted_tl] .
    have d0_in: "d0 \<in> set ds" using hd_ds True by (simp add: d0_def)
    have d0_min: "\<forall>d\<in>set ds. d0 \<le> d" using lower True by (simp add: d0_def)
    obtain rest where rest: "unique ds = d0 # rest" "d0 \<notin> set rest"
      using unique_min_hd [OF d0_in d0_min] by blast
    have rs: "runs_scan (y # ys) = idxevent_of (y # ys) ds d0 # map (idxevent_of (y # ys) ds) rest"
      using IH rest by simp
    have lhs: "map (idxevent_of (x # y # ys) (d0 # ds)) (unique (d0 # ds))
        = (x # idxevent_of (y # ys) ds d0) # map (idxevent_of (y # ys) ds) rest"
      using rest by (auto simp: unique_Cons_old [OF d0_in] idxevent_of_Cons)
    have rhs: "runs_scan (x # y # ys)
        = (x # idxevent_of (y # ys) ds d0) # map (idxevent_of (y # ys) ds) rest"
      using True rs by simp
    show ?thesis unfolding dff lhs rhs ..
  next
    case False
    have IH: "map (idxevent_of (y # ys) ds) (unique ds) = runs_scan (y # ys)"
      unfolding ds_def using "3.IH"(2) [OF False sorted_tl] .
    have above: "\<forall>d\<in>set ds. d0 < d" using lower xy False by (auto simp: d0_def)
    then have notin: "d0 \<notin> set ds" by auto
    have lhs: "map (idxevent_of (x # y # ys) (d0 # ds)) (unique (d0 # ds))
        = [x] # map (idxevent_of (y # ys) ds) (unique ds)"
      using above notin
      by (auto simp: unique_Cons_new idxevent_of_Cons idxevent_of_absent set_unique)
    have rhs: "runs_scan (x # y # ys) = [x] # map (idxevent_of (y # ys) ds) (unique ds)"
      using False IH by simp
    show ?thesis unfolding dff lhs rhs ..
  qed
qed

lemma segments_of_scan: "sorted_wrt (<) idx \<Longrightarrow> segments_of idx = runs_scan idx"
  using segments_from_scan [of idx 0] by (simp add: segments_of_def Let_def dff_of_from)

lemma argmax_from_spec:
  assumes "bi < length pre" "(pre @ xs) ! bi = best"
    and "\<forall>j<length pre. (pre @ xs) ! j \<le> best" and "\<forall>j<bi. (pre @ xs) ! j < best"
  shows "argmax_from best bi (length pre) xs < length (pre @ xs)
       \<and> (\<forall>j<length (pre @ xs). (pre @ xs) ! j \<le> (pre @ xs) ! argmax_from best bi (length pre) xs)
       \<and> (\<forall>j<argmax_from best bi (length pre) xs.
             (pre @ xs) ! j < (pre @ xs) ! argmax_from best bi (length pre) xs)"
  using assms
proof (induction xs arbitrary: best bi pre)
  case Nil
  then show ?case by simp
next
  case (Cons x xs)
  have app: "pre @ x # xs = (pre @ [x]) @ xs" by simp
  have len: "Suc (length pre) = length (pre @ [x])" by simp
  show ?case
  proof (cases "best < x")
    case True
    have "argmax_from x (length pre) (length (pre @ [x])) xs < length ((pre @ [x]) @ xs)
       \<and> (\<forall>j<length ((pre @ [x]) @ xs). ((pre @ [x]) @ xs) ! j
              \<le> ((pre @ [x]) @ xs) ! argmax_from x (length pre) (length (pre @ [x])) xs)
       \<and> (\<forall>j<argmax_from x (length pre) (length (pre @ [x])) xs.
             ((pre @ [x]) @ xs) ! j < ((pre @ [x]) @ xs) ! argmax_from x (length pre) (length (pre @ [x])) xs)"
    proof (rule Cons.IH)
      show "length pre < length (pre @ [x])" by simp
      show "((pre @ [x]) @ xs) ! length pre = x" by (simp add: nth_append)
      show "\<forall>j<length (pre @ [x]). ((pre @ [x]) @ xs) ! j \<le> x"
        using Cons.prems(3) True by (auto simp: nth_append less_Suc_eq)
      show "\<forall>j<length pre. ((pre @ [x]) @ xs) ! j < x"
        using Cons.prems(3) True by (auto simp: nth_append)
    qed
    then show ?thesis using True unfolding app by (simp del: append_assoc)
  next
    case False
    have "argmax_from best bi (length (pre @ [x])) xs < length ((pre @ [x]) @ xs)
       \<and> (\<forall>j<length ((pre @ [x]) @ xs). ((pre @ [x]) @ xs) ! j
              \<le> ((pre @ [x]) @ xs) ! argmax_from best bi (length (pre @ [x])) xs)
       \<and> (\<forall>j<argmax_from best bi (length (pre @ [x])) xs.
             ((pre @ [x]) @ xs) ! j < ((pre @ [x]) @ xs) ! argmax_from best bi (length (pre @ [x])) xs)"
    proof (rule Cons.IH)
      show "bi < length (pre @ [x])" using Cons.prems(1) by simp
      show "((pre @ [x]) @ xs) ! bi = best" using Cons.prems(1,2) by (simp add: nth_append)
      show "\<forall>j<length (pre @ [x]). ((pre @ [x]) @ xs) ! j \<le> best"
        using Cons.prems(3) False by (auto simp: nth_append less_Suc_eq)
      show "\<forall>j<bi. ((pre @ [x]) @ xs) ! j < best"
        using Cons.prems(1,4) by (auto simp: nth_append)
    qed
    then show ?thesis using False unfolding app by (simp del: append_assoc)
  qed
qed

lemma argmax_spec:
  assumes "argmax xs = Inr k"
  shows "k < length xs \<and> (\<forall>j<length xs. xs ! j \<le> xs ! k) \<and> (\<forall>j<k. xs ! j < xs ! k)"
proof (cases xs)
  case Nil
  with assms show ?thesis by (simp add: argmax_def)
next
  case (Cons x xs')
  have k: "k = argmax_from x 0 (length [x]) xs'" using assms Cons by (simp add: argmax_def)
  have "argmax_from x 0 (length [x]) xs' < length ([x] @ xs')
       \<and> (\<forall>j<length ([x] @ xs'). ([x] @ xs') ! j \<le> ([x] @ xs') ! argmax_from x 0 (length [x]) xs')
       \<and> (\<forall>j<argmax_from x 0 (length [x]) xs'.
             ([x] @ xs') ! j < ([x] @ xs') ! argmax_from x 0 (length [x]) xs')"
    by (rule argmax_from_spec) simp_all
  then show ?thesis unfolding k [symmetric] Cons by simp
qed

lemma argmax_defined: "xs \<noteq> [] \<Longrightarrow> \<exists>k. argmax xs = Inr k"
  by (cases xs) (simp_all add: argmax_def)

lemma peak_of_spec:
  assumes "peak_of rss ev = Inr i"
  shows "i \<in> set ev \<and> (\<forall>j\<in>set ev. rss ! j \<le> rss ! i)"
proof -
  from assms obtain k where tk: "take_at rss ev = Inr (map (\<lambda>i. rss ! i) ev)"
      and k: "argmax (map (\<lambda>i. rss ! i) ev) = Inr k" and i: "i = ev ! k"
    by (auto simp: peak_of_def take_at_def split: sum.splits if_splits)
  from argmax_spec [OF k] have kl: "k < length ev"
      and mx: "\<forall>j<length ev. rss ! (ev ! j) \<le> rss ! (ev ! k)" by auto
  show ?thesis using kl mx i by (auto simp: in_set_conv_nth)
qed

lemma peak_of_defined:
  assumes "ev \<noteq> []" "\<forall>i\<in>set ev. i < length rss"
  shows "\<exists>i. peak_of rss ev = Inr i"
proof -
  have "take_at rss ev = Inr (map (\<lambda>i. rss ! i) ev)"
    using assms(2) by (simp add: take_at_def list_all_iff)
  moreover obtain k where "argmax (map (\<lambda>i. rss ! i) ev) = Inr k"
    using argmax_defined [of "map (\<lambda>i. rss ! i) ev"] assms(1) by auto
  ultimately show ?thesis by (simp add: peak_of_def)
qed

lemma for_each_defined:
  "\<forall>x\<in>set xs. \<exists>y. f x = Inr y \<Longrightarrow> \<exists>ys. for_each f xs = Inr ys \<and> length ys = length xs"
  by (induction xs) auto

lemma concat_runs_scan: "concat (runs_scan idx) = idx"
  by (induction idx rule: runs_scan.induct) (auto split: list.splits)

lemma runs_scan_nonempty: "[] \<notin> set (runs_scan idx)"
  by (induction idx rule: runs_scan.induct) (auto split: list.splits)

lemma runs_scan_hd: "idx \<noteq> [] \<Longrightarrow> \<exists>r rs. runs_scan idx = r # rs \<and> r \<noteq> [] \<and> hd r = hd idx"
  by (induction idx rule: runs_scan.induct) (auto split: list.splits)

lemma runs_scan_consecutive: "\<forall>r\<in>set (runs_scan idx). r = [hd r..<hd r + length r]"
proof (induction idx rule: runs_scan.induct)
  case (3 x y ys)
  obtain r rs where rs: "runs_scan (y # ys) = r # rs" "r \<noteq> []" "hd r = y"
    using runs_scan_hd [of "y # ys"] by auto
  show ?case
  proof (cases "y = x + 1")
    case True
    with "3.IH"(1) rs have "r = [Suc x..<Suc x + length r]" and "\<forall>q\<in>set rs. q = [hd q..<hd q + length q]"
      by auto
    then have "x # r = [x..<x + length (x # r)]"
      by (metis add_Suc_right add_Suc_shift length_Cons less_add_Suc1 upt_conv_Cons)
    with \<open>\<forall>q\<in>set rs. q = [hd q..<hd q + length q]\<close> show ?thesis using True rs by simp
  next
    case False
    with "3.IH"(2) show ?thesis by (simp add: upt_rec)
  qed
qed (simp_all add: upt_rec)

lemma find_peaks_defined:
  assumes "\<forall>i\<in>set idx. i < length rss"
  shows "\<exists>peaks. find_peaks_scan rss idx = Inr peaks \<and> length peaks = length (runs_scan idx)"
proof -
  have "\<forall>ev\<in>set (runs_scan idx). \<exists>i. peak_of rss ev = Inr i"
  proof
    fix ev assume ev: "ev \<in> set (runs_scan idx)"
    then have "ev \<noteq> []" using runs_scan_nonempty [of idx] by auto
    moreover have "set ev \<subseteq> set idx" using ev concat_runs_scan [of idx]
      by (metis Sup_upper image_eqI set_concat)
    ultimately show "\<exists>i. peak_of rss ev = Inr i" using assms by (intro peak_of_defined) auto
  qed
  then show ?thesis unfolding find_peaks_scan_def by (rule for_each_defined)
qed

text \<open>
  Claim C2. For a candidate list in strictly ascending order, the groups of equal
  \<open>dff\<close> the program forms are the runs the explicit scan of adjacent indices finds, in
  the same order; the peaks computed from either are the same; the peak of a segment is
  a member of the segment whose RSS no other member exceeds; and when the candidates are
  positions of \<open>rss\<close> the peaks are returned, one per run.
\<close>

theorem segmentation_equals_scan:
  assumes "sorted_wrt (<) idx"
  shows "segments_of idx = runs_scan idx
       \<and> find_peaks True rss idx = find_peaks_scan rss idx
       \<and> (\<forall>ev\<in>set (segments_of idx). \<forall>i. peak_of rss ev = Inr i \<longrightarrow>
             i \<in> set ev \<and> (\<forall>j\<in>set ev. rss ! j \<le> rss ! i))
       \<and> ((\<forall>i\<in>set idx. i < length rss) \<longrightarrow>
             (\<exists>peaks. find_peaks True rss idx = Inr peaks \<and> length peaks = length (runs_scan idx)))"
proof -
  have eq: "segments_of idx = runs_scan idx" by (rule segments_of_scan [OF assms])
  have fp: "find_peaks True rss idx = find_peaks_scan rss idx"
    by (simp add: find_peaks_def find_peaks_scan_def eq)
  show ?thesis using eq fp peak_of_spec find_peaks_defined [of idx rss] by auto
qed

theorem segmentation_equals_scan_witness:
  "segments_of [2, 3, 4, 7, 9, 10] = runs_scan [2, 3, 4, 7, 9, 10]
   \<and> find_peaks True [0, 0, 5, 9, 3, 0, 0, 1, 0, 4, 8] [2, 3, 4, 7, 9, 10]
       = find_peaks_scan [0, 0, 5, 9, 3, 0, 0, 1, 0, 4, 8] [2, 3, 4, 7, 9, 10]"
proof -
  have s: "sorted_wrt (<) [2, 3, 4, 7, 9, 10 :: nat]" by simp
  from segmentation_equals_scan [OF s, of "[0, 0, 5, 9, 3, 0, 0, 1, 0, 4, 8]"]
  show ?thesis by blast
qed

lemma candidates_sorted: "sorted_wrt (<) (candidates p pcrit)"
  by (simp add: candidates_def sorted_wrt_filter)

lemma candidates_in_range: "\<forall>i\<in>set (candidates p pcrit). i < length p"
  by (simp add: candidates_def)

subsection \<open>Thresholding\<close>

lemma for_each_Inr_map:
  "for_each f xs = Inr ys \<Longrightarrow> length ys = length xs \<and> (\<forall>k<length xs. f (xs ! k) = Inr (ys ! k))"
proof (induction xs arbitrary: ys)
  case Nil then show ?case by simp
next
  case (Cons x xs)
  then show ?case by (auto split: sum.splits simp: nth_Cons split: nat.splits)
qed

lemma norm_index_Inr:
  "norm_index t i = Inr r \<Longrightarrow> r < t \<and> (int r = i \<or> int r - int t = i)"
  by (auto simp: norm_index_def split: if_splits)

lemma norm_index_nonneg: "0 \<le> i \<Longrightarrow> i < int t \<Longrightarrow> norm_index t i = Inr (nat i)"
  by (simp add: norm_index_def)

lemma set_for_each_norm_index:
  assumes "for_each (norm_index t) sel = Inr rows"
  shows "set rows = addressed t sel"
proof -
  from for_each_Inr_map [OF assms]
  have len: "length rows = length sel" and nth: "\<forall>k<length sel. norm_index t (sel ! k) = Inr (rows ! k)"
    by auto
  show ?thesis
  proof (intro set_eqI iffI)
    fix r assume "r \<in> set rows"
    then obtain k where k: "k < length rows" "rows ! k = r" by (auto simp: in_set_conv_nth)
    with nth len have "norm_index t (sel ! k) = Inr r" by auto
    from norm_index_Inr [OF this] k len show "r \<in> addressed t sel"
      by (auto simp: addressed_def)
  next
    fix r assume "r \<in> addressed t sel"
    then have r: "r < t" and "int r \<in> set sel \<or> int r - int t \<in> set sel" by (auto simp: addressed_def)
    then obtain k where k: "k < length sel" "sel ! k = int r \<or> sel ! k = int r - int t"
      by (auto simp: in_set_conv_nth)
    then have "norm_index t (sel ! k) = Inr r" using r by (auto simp: norm_index_def)
    with nth k have "rows ! k = r" by auto
    then show "r \<in> set rows" using k len by (metis nth_mem)
  qed
qed

lemma fold_copy_rows:
  "length m = length a \<Longrightarrow> \<forall>r\<in>set rows. r < length a \<Longrightarrow>
     length (fold (\<lambda>r m. m[r := a ! r]) rows m) = length a
   \<and> (\<forall>r<length a. fold (\<lambda>r m. m[r := a ! r]) rows m ! r = (if r \<in> set rows then a ! r else m ! r))"
proof (induction rows arbitrary: m)
  case Nil then show ?case by simp
next
  case (Cons x rows)
  have "length (m[x := a ! x]) = length a" using Cons.prems by simp
  from Cons.IH [OF this] Cons.prems show ?case
    by (auto simp: nth_list_update)
qed

lemma threshold_rows_addressed:
  assumes "threshold_ets_matrix ets sel thr = Inr m"
  shows "length m = length ets \<and>
     (\<forall>r<length ets. m ! r =
        (if r \<in> addressed (length ets) sel then map (\<lambda>x. if x < thr then 0 else x) (ets ! r)
         else replicate (length (ets ! r)) 0))"
proof -
  from assms obtain rows where rows: "for_each (norm_index (length ets)) sel = Inr rows"
    and m: "m = map (map (\<lambda>x. if x < thr then 0 else x))
                 (fold (\<lambda>r m. m[r := ets ! r]) rows (map (\<lambda>row. replicate (length row) 0) ets))"
    by (auto simp: threshold_ets_matrix_def Let_def split: sum.splits)
  have set_rows: "set rows = addressed (length ets) sel" by (rule set_for_each_norm_index [OF rows])
  then have inr: "\<forall>r\<in>set rows. r < length ets" by (auto simp: addressed_def)
  have lz: "length (map (\<lambda>row. replicate (length row) (0::real)) ets) = length ets" by simp
  note fc = fold_copy_rows [OF lz inr]
  show ?thesis unfolding m using fc set_rows by (auto simp: map_replicate_const)
qed

lemma addressed_nonneg:
  assumes "\<forall>i\<in>set sel. 0 \<le> i \<and> i < int t" and "r < t"
  shows "r \<in> addressed t sel \<longleftrightarrow> int r \<in> set sel"
proof -
  have "int r - int t \<notin> set sel" using assms by fastforce
  then show ?thesis using assms(2) by (simp add: addressed_def)
qed

text \<open>
  Claim C3. For every edge matrix, every list of selected time points (positions of rows
  of the matrix) and every threshold, the function returns a matrix of the same shape
  in which every row that is not selected is zero, and every selected row is the row of
  the input with the entries below the threshold set to zero and the others unchanged.
\<close>

theorem threshold_ets_matrix_rows:
  assumes "\<forall>i\<in>set selected_idxs. 0 \<le> i \<and> i < int (length ets_matrix)"
  shows "\<exists>m. threshold_ets_matrix ets_matrix selected_idxs thr = Inr m
       \<and> length m = length ets_matrix
       \<and> (\<forall>r<length ets_matrix.
            (int r \<notin> set selected_idxs \<longrightarrow> m ! r = replicate (length (ets_matrix ! r)) 0)
          \<and> (int r \<in> set selected_idxs \<longrightarrow>
                m ! r = map (\<lambda>x. if x < thr then 0 else x) (ets_matrix ! r)))"
proof -
  have "\<forall>i\<in>set selected_idxs. \<exists>r. norm_index (length ets_matrix) i = Inr r"
    using assms by (simp add: norm_index_def)
  then obtain rows where "for_each (norm_index (length ets_matrix)) selected_idxs = Inr rows"
    using for_each_defined [of selected_idxs "norm_index (length ets_matrix)"] by blast
  then obtain m where m: "threshold_ets_matrix ets_matrix selected_idxs thr = Inr m"
    by (simp add: threshold_ets_matrix_def Let_def)
  from threshold_rows_addressed [OF m] addressed_nonneg [OF assms]
  show ?thesis using m by auto
qed

theorem threshold_ets_matrix_rows_witness:
  "\<exists>m. threshold_ets_matrix [[1, -2], [3, 4], [5, 1 / 2]] [1, 2] 1 = Inr m
     \<and> length m = 3
     \<and> m ! 0 = [0, 0]
     \<and> m ! 1 = [3, 4]"
proof -
  have h: "\<forall>i\<in>set [1, 2 :: int]. 0 \<le> i \<and> i < int (length [[1, -2], [3, 4], [5, 1 / 2 :: real]])"
    by simp
  from threshold_ets_matrix_rows [OF h, of 1] obtain m where
    m: "threshold_ets_matrix [[1, -2], [3, 4], [5, 1 / 2]] [1, 2] 1 = Inr m"
      "length m = length [[1, -2], [3, 4], [5, 1 / 2 :: real]]"
    and rows: "\<forall>r<length [[1, -2], [3, 4], [5, 1 / 2 :: real]].
            (int r \<notin> set [1, 2] \<longrightarrow> m ! r = replicate (length ([[1, -2], [3, 4], [5, 1 / 2 :: real]] ! r)) 0)
          \<and> (int r \<in> set [1, 2] \<longrightarrow>
                m ! r = map (\<lambda>x. if x < 1 then 0 else x) ([[1, -2], [3, 4], [5, 1 / 2]] ! r))"
    by blast
  have r0: "m ! 0 = replicate (length ([[1, -2], [3, 4], [5, 1 / 2 :: real]] ! 0)) 0"
    using rows [rule_format, of 0] by simp
  have r1: "m ! 1 = map (\<lambda>x. if x < 1 then 0 else x) ([[1, -2], [3, 4], [5, 1 / 2]] ! 1)"
    using rows [rule_format, of 1] by simp
  have "m ! 0 = [0, 0]" using r0 by simp
  moreover have "m ! 1 = [3, 4]" using r1 by simp
  ultimately show ?thesis using m by simp
qed

subsection \<open>The histogram threshold\<close>


lemma cumsum_from_upper:
  "\<forall>x\<in>set xs. 0 \<le> x \<Longrightarrow> \<forall>c\<in>set (cumsum_from acc xs). c \<le> acc + sum_list xs"
proof (induction xs arbitrary: acc)
  case Nil then show ?case by simp
next
  case (Cons x xs)
  from Cons.IH [of "acc + x"] Cons.prems
  have "\<forall>c\<in>set (cumsum_from (acc + x) xs). c \<le> acc + x + sum_list xs" by auto
  moreover have "0 \<le> sum_list xs" using Cons.prems by (simp add: sum_list_nonneg)
  ultimately show ?case by (auto simp: add.assoc)
qed

lemma length_cumsum_from: "length (cumsum_from acc xs) = length xs"
  by (induction xs arbitrary: acc) simp_all

lemma length_cumsum_percentile: "length (cumsum_percentile s) = length s"
  by (simp add: cumsum_percentile_def cumsum_def length_cumsum_from)

lemma sum_list_real: "sum_list (map real s) = real (sum_list s)"
  by (induction s) simp_all


lemma cumsum_percentile_le_100:
  assumes "0 < sum_list s"
  shows "\<forall>c\<in>set (cumsum_percentile s). c \<le> 100"
proof
  fix c assume "c \<in> set (cumsum_percentile s)"
  then obtain a where a: "a \<in> set (cumsum (map real s))" and c: "c = a / real (sum_list s) * 100"
    by (auto simp: cumsum_percentile_def)
  have "a \<le> real (sum_list s)"
    using cumsum_from_upper [of "map real s" 0] a by (auto simp: cumsum_def sum_list_real)
  moreover have "0 < real (sum_list s)" using assms by (simp only: of_nat_0_less_iff)
  ultimately have le1: "a / real (sum_list s) \<le> 1" by (simp only: divide_le_eq_1_pos)
  have "a / real (sum_list s) * 100 \<le> 1 * 100" using le1 by (rule mult_right_mono) simp
  then show "c \<le> 100" unfolding c by (simp only: mult_1)
qed

lemma hist_threshold_pos:
  assumes "0 < sum_list s"
  shows "hist_threshold e s p =
     (if length (filter (\<lambda>c. c \<le> p) (cumsum_percentile s)) < length e
      then Inr (e ! length (filter (\<lambda>c. c \<le> p) (cumsum_percentile s))) else Inl IndexError)"
proof -
  have "sum_list s \<noteq> 0" using assms by (simp only: neq0_conv)
  then show ?thesis unfolding hist_threshold_def Let_def by (simp only: if_False)
qed








text \<open>
  Claim C9, as the program behaves. When the percentile is at least 100, so that no bin
  has a cumulative percentage above it, the program raises nothing: the threshold is the
  last bin edge, the upper end of the range of the histogram.
\<close>

theorem hist_threshold_top_edge:
  assumes "length bin_edges = length ets_hist_sum + 1" and "0 < sum_list ets_hist_sum"
    and "100 \<le> percentile"
  shows "hist_threshold bin_edges ets_hist_sum percentile = Inr (last bin_edges)"
proof -
  have "\<forall>c\<in>set (cumsum_percentile ets_hist_sum). c \<le> percentile"
    using cumsum_percentile_le_100 [OF assms(2)] assms(3) by fastforce
  then have "filter (\<lambda>c. c \<le> percentile) (cumsum_percentile ets_hist_sum) = cumsum_percentile ets_hist_sum"
    by (simp add: filter_id_conv)
  then have "length (filter (\<lambda>c. c \<le> percentile) (cumsum_percentile ets_hist_sum)) = length ets_hist_sum"
    by (simp add: length_cumsum_percentile)
  moreover have "bin_edges \<noteq> []" using assms(1) by auto
  ultimately show ?thesis using assms(1)
    by (simp add: hist_threshold_pos [OF assms(2)] last_conv_nth)
qed

lemma hist_threshold_defined:
  assumes "length bin_edges = length ets_hist_sum + 1"
  shows "\<exists>thr. hist_threshold bin_edges ets_hist_sum percentile = Inr thr"
proof -
  have "length (filter (\<lambda>c. c \<le> percentile) (cumsum_percentile ets_hist_sum)) \<le> length ets_hist_sum"
    using length_filter_le [of _ "cumsum_percentile ets_hist_sum"] by (simp add: length_cumsum_percentile)
  then show ?thesis using assms by (simp add: hist_threshold_def Let_def)
qed


theorem hist_threshold_top_edge_witness:
  "hist_threshold [0, 50, 100] [1, 1] 100 = Inr (last [0, 50, 100])"
  using hist_threshold_top_edge [of "[0, 50, 100]" "[1, 1]" 100] by simp

lemma cumsum_percentile_two_bins: "cumsum_percentile [1, 1] = [50, 100]"
  by (simp add: cumsum_percentile_def cumsum_def)

lemma col_sums_one_trial: "col_sums 2 [[1, 1]] = [1, 1]"
  by (simp add: col_sums_def numeral_2_eq_2)

text \<open>
  One trial with two bins of one count each over [0, 100] and the percentile 120, above
  every cumulative percentage: the result is the upper edge 100, and no exception.
\<close>

theorem no_threshold_out_of_range_counterexample:
  "surrogates_to_array [([1, 1], [0, 50, 100])] 2 120 = Inr 100"
proof -
  have a: "fill_rows 2 [([1, 1], [0, 50, 100 :: real])] = Inr [[1, 1]]"
    by (simp add: fill_rows_def fit_to_def)
  have p: "0 < sum_list [1, 1 :: nat]" by simp
  have c: "hist_threshold [0, 50, 100] [1, 1] 120 = Inr 100"
    unfolding hist_threshold_pos [OF p] cumsum_percentile_two_bins by simp
  show ?thesis
    unfolding surrogates_to_array_def a by (simp only: sum.case list.case snd_conv col_sums_one_trial c)
qed

subsection \<open>The null RSS matrix\<close>

lemma set_col_fit:
  "length v = length m \<Longrightarrow> set_col m j v = Inr (map (\<lambda>(row, x). row[j := x]) (zip m v))"
  by (simp add: set_col_def fit_to_def)

lemma fill_cols_spec:
  assumes "length m = t" and "\<forall>row\<in>set m. length row = n"
    and "\<forall>j\<in>set js. j < n \<and> length (fst (results ! j)) = t"
  shows "\<exists>m'. fill_cols m results js = Inr m' \<and> length m' = t
       \<and> (\<forall>i<t. length (m' ! i) = n
             \<and> (\<forall>j<n. m' ! i ! j = (if j \<in> set js then fst (results ! j) ! i else m ! i ! j)))"
  using assms
proof (induction js arbitrary: m)
  case Nil
  then show ?case by simp
next
  case (Cons j js)
  define v where "v = fst (results ! j)"
  define m1 where "m1 = map (\<lambda>(row, x). row[j := x]) (zip m v)"
  have lv: "length v = t" and jn: "j < n" using Cons.prems(3) by (simp_all add: v_def)
  have sc: "set_col m j v = Inr m1"
    unfolding m1_def using lv Cons.prems(1) by (intro set_col_fit) simp
  have l1: "length m1 = t" using lv Cons.prems(1) by (simp add: m1_def)
  have nth1: "\<forall>i<t. m1 ! i = (m ! i)[j := v ! i]"
    using lv Cons.prems(1) by (simp add: m1_def)
  have rows1: "\<forall>row\<in>set m1. length row = n"
  proof
    fix row assume "row \<in> set m1"
    then obtain i where "i < t" "row = m1 ! i" using l1 by (auto simp: in_set_conv_nth)
    then show "length row = n" using nth1 Cons.prems(1,2) by simp
  qed
  have rest: "\<forall>j\<in>set js. j < n \<and> length (fst (results ! j)) = t" using Cons.prems(3) by simp
  from Cons.IH [OF l1 rows1 rest] obtain m' where
    m': "fill_cols m1 results js = Inr m'" "length m' = t"
    and ent: "\<forall>i<t. length (m' ! i) = n
             \<and> (\<forall>k<n. m' ! i ! k = (if k \<in> set js then fst (results ! k) ! i else m1 ! i ! k))"
    by blast
  have fc: "fill_cols m results (j # js) = Inr m'"
    using sc m'(1) by (simp add: v_def)
  have "\<forall>i<t. length (m' ! i) = n
       \<and> (\<forall>k<n. m' ! i ! k = (if k \<in> set (j # js) then fst (results ! k) ! i else m ! i ! k))"
  proof (intro allI impI conjI)
    fix i assume i: "i < t"
    show "length (m' ! i) = n" using ent i by blast
    fix k assume k: "k < n"
    have li: "length (m ! i) = n" using Cons.prems(1,2) i by simp
    have "m1 ! i ! k = (if k = j then v ! i else m ! i ! k)"
      using nth1 i k li by (simp add: nth_list_update)
    then show "m' ! i ! k = (if k \<in> set (j # js) then fst (results ! k) ! i else m ! i ! k)"
      using ent i k by (auto simp: v_def)
  qed
  then show ?case using fc m'(2) by blast
qed

lemma fill_cols_all:
  assumes "\<forall>r\<in>set results. length (fst r) = t"
  shows "\<exists>m'. fill_cols (replicate t (replicate (length results) 0)) results [0..<length results] = Inr m'
       \<and> length m' = t
       \<and> (\<forall>i<t. length (m' ! i) = length results
             \<and> (\<forall>j<length results. m' ! i ! j = fst (results ! j) ! i))"
proof -
  have "\<exists>m'. fill_cols (replicate t (replicate (length results) 0)) results [0..<length results] = Inr m'
       \<and> length m' = t
       \<and> (\<forall>i<t. length (m' ! i) = length results
             \<and> (\<forall>j<length results. m' ! i ! j =
                   (if j \<in> set [0..<length results] then fst (results ! j) ! i
                    else replicate t (replicate (length results) 0) ! i ! j)))"
    by (rule fill_cols_spec) (use assms in auto)
  then show ?thesis by auto
qed

text \<open>
  Claim C6, as the program behaves. In AUC mode, with every trial returning a vector of
  T entries and T at least 1, the null matrix is built without error; its entry at time
  point 0 is zero for every trial, not for trial 0 alone, and every entry at a later
  time point is the value its trial returned.
\<close>

theorem null_rss_auc_zeroes_time_0:
  assumes "\<forall>r\<in>set results. length (fst r) = t" and "0 < t"
  shows "\<exists>rssr. null_rss True t results = Inr rssr \<and> length rssr = t
       \<and> (\<forall>j<length results.
             rssr ! 0 ! j = 0
           \<and> (\<forall>i. 0 < i \<and> i < t \<longrightarrow> rssr ! i ! j = fst (results ! j) ! i))"
proof -
  from fill_cols_all [OF assms(1)] obtain m' where
    m': "fill_cols (replicate t (replicate (length results) 0)) results [0..<length results] = Inr m'"
      "length m' = t"
    and ent: "\<forall>i<t. length (m' ! i) = length results
             \<and> (\<forall>j<length results. m' ! i ! j = fst (results ! j) ! i)"
    by blast
  have res: "null_rss True t results = Inr (m'[0 := replicate (length results) 0])"
    using m'(1) assms(2) by (simp add: null_rss_def Let_def)
  show ?thesis
    unfolding res using m'(2) ent assms(2) by (auto simp: nth_list_update)
qed

lemma null_rss_plain_keeps_all:
  assumes "\<forall>r\<in>set results. length (fst r) = t"
  shows "\<exists>rssr. null_rss False t results = Inr rssr \<and> length rssr = t
       \<and> (\<forall>i<t. \<forall>j<length results. rssr ! i ! j = fst (results ! j) ! i)"
proof -
  from fill_cols_all [OF assms] obtain m' where
    m': "fill_cols (replicate t (replicate (length results) 0)) results [0..<length results] = Inr m'"
      "length m' = t"
    and ent: "\<forall>i<t. length (m' ! i) = length results
             \<and> (\<forall>j<length results. m' ! i ! j = fst (results ! j) ! i)"
    by blast
  have "null_rss False t results = Inr m'" using m'(1) by (simp add: null_rss_def Let_def)
  then show ?thesis using m'(2) ent by auto
qed

theorem null_rss_auc_zeroes_time_0_witness:
  "\<exists>rssr. null_rss True 2 [([5, 1], 0, 0), ([7, 2], 0, 0)] = Inr rssr
     \<and> rssr ! 0 ! 0 = 0 \<and> rssr ! 0 ! 1 = 0 \<and> rssr ! 1 ! 0 = 1"
proof -
  define R :: "(real list \<times> real \<times> real) list" where "R = [([5, 1], 0, 0), ([7, 2], 0, 0)]"
  have h: "\<forall>r\<in>set R. length (fst r) = 2" by (simp add: R_def)
  have p: "0 < (2::nat)" by simp
  have lR: "length R = 2" by (simp add: R_def)
  from null_rss_auc_zeroes_time_0 [OF h p] obtain rssr where
    r: "null_rss True 2 R = Inr rssr"
    and e: "\<forall>j<length R. rssr ! 0 ! j = 0
           \<and> (\<forall>i. 0 < i \<and> i < 2 \<longrightarrow> rssr ! i ! j = fst (R ! j) ! i)"
    by blast
  have e0: "rssr ! 0 ! 0 = 0 \<and> (\<forall>i. 0 < i \<and> i < 2 \<longrightarrow> rssr ! i ! 0 = fst (R ! 0) ! i)"
    using e lR by (metis zero_less_numeral)
  have e1: "rssr ! 0 ! 1 = 0"
    using e lR by (metis one_less_numeral_iff semiring_norm(76))
  have "rssr ! 1 ! 0 = fst (R ! 0) ! 1" using e0 by (metis one_less_numeral_iff semiring_norm(76) zero_less_one)
  then have "rssr ! 1 ! 0 = 1" by (simp add: R_def)
  then show ?thesis using r e0 e1 unfolding R_def by blast
qed

text \<open>
  Two time points and two trials in AUC mode: trial 1 returned 7 at time point 0, and the
  entry of the null matrix at (time 0, trial 1) is 0.
\<close>

theorem only_trial_0_zeroed_counterexample:
  "null_rss True 2 [([5, 1], 0, 0), ([7, 2], 0, 0)] = Inr [[0, 0], [1, 2]]"
proof -
  have z: "replicate 2 (replicate (length [([5, 1], 0, 0), ([7, 2], 0::real, 0::real)]) (0::real)) = [[0, 0], [0, 0]]"
    by (simp add: eval_nat_numeral)
  have u: "[0..<length [([5, 1], 0, 0), ([7, 2], 0::real, 0::real)]] = [0, 1]"
    by (simp add: upt_rec)
  have f: "fill_cols [[0, 0], [0, 0]] [([5, 1], 0, 0), ([7, 2], 0, 0)] [0, 1] = Inr [[5, 7], [1, 2]]"
    by (simp add: set_col_def fit_to_def)
  show ?thesis unfolding null_rss_def Let_def z u f by simp
qed

subsection \<open>Edge time series of any shape\<close>

lemma take_cols_ok:
  "\<forall>row\<in>set y. \<forall>i\<in>set us. i < length row \<Longrightarrow>
     take_cols y us = Inr (map (\<lambda>row. map (\<lambda>i. row ! i) us) y)"
  by (induction y) (simp_all add: take_cols_def take_at_def list_all_iff)

lemma triu_pairs_bounds: "(i, j) \<in> set (triu_pairs n) \<Longrightarrow> i < j \<and> j < n"
  by (auto simp: triu_pairs_def)

lemma triu_pairs_small: "n < 2 \<Longrightarrow> triu_pairs n = []"
  by (auto simp: triu_pairs_def filter_empty_conv)

lemma sum_below_twice: "(\<Sum>i<n. i) * 2 = n * (n - 1)" for n :: nat
  by (induction n) (auto simp: algebra_simps)

lemma count_above: "length (filter (\<lambda>j. i < j) [0..<n]) = n - Suc i"
proof -
  have "length (filter (\<lambda>j. i < j) [0..<n]) = card {j. j < length [0..<n] \<and> i < [0..<n] ! j}"
    by (rule length_filter_conv_card)
  also have "{j. j < length [0..<n] \<and> i < [0..<n] ! j} = {Suc i..<n}" by auto
  finally show ?thesis by simp
qed

lemma length_triu_pairs: "length (triu_pairs n) = n * (n - 1) div 2"
proof -
  have "length (triu_pairs n) = sum_list (map (\<lambda>i. n - Suc i) [0..<n])"
    by (simp add: triu_pairs_def length_concat comp_def count_above)
  also have "\<dots> = (\<Sum>i<n. n - Suc i)"
    by (simp add: sum_list_sum_nth atLeast0LessThan)
  also have "\<dots> = (\<Sum>i<n. i)"
    by (rule sum.nat_diff_reindex)
  finally have "length (triu_pairs n) * 2 = n * (n - 1)" by (simp add: sum_below_twice)
  then show ?thesis by simp
qed

lemma edge_products_eq:
  assumes "\<forall>row\<in>set y. length row = n"
  shows "take_cols y (map fst (triu_pairs n))
           = Inr (map (\<lambda>row. map (\<lambda>i. row ! i) (map fst (triu_pairs n))) y)"
    and "take_cols y (map snd (triu_pairs n))
           = Inr (map (\<lambda>row. map (\<lambda>i. row ! i) (map snd (triu_pairs n))) y)"
    and "map (\<lambda>(a, b). map (\<lambda>(p, q). p * q) (zip a b))
          (zip (map (\<lambda>row. map (\<lambda>i. row ! i) (map fst (triu_pairs n))) y)
               (map (\<lambda>row. map (\<lambda>i. row ! i) (map snd (triu_pairs n))) y))
           = ets_of n y"
proof -
  show "take_cols y (map fst (triu_pairs n))
      = Inr (map (\<lambda>row. map (\<lambda>i. row ! i) (map fst (triu_pairs n))) y)"
    by (rule take_cols_ok) (use assms triu_pairs_bounds in fastforce)
  show "take_cols y (map snd (triu_pairs n))
      = Inr (map (\<lambda>row. map (\<lambda>i. row ! i) (map snd (triu_pairs n))) y)"
    by (rule take_cols_ok) (use assms triu_pairs_bounds in fastforce)
  show "map (\<lambda>(a, b). map (\<lambda>(p, q). p * q) (zip a b))
          (zip (map (\<lambda>row. map (\<lambda>i. row ! i) (map fst (triu_pairs n))) y)
               (map (\<lambda>row. map (\<lambda>i. row ! i) (map snd (triu_pairs n))) y))
      = ets_of n y"
    by (simp add: ets_of_def zip_map_map zip_same_conv_map case_prod_beta comp_def)
qed

lemma rss_surr_stats_eq:
  assumes "\<forall>row\<in>set zr. length row = n"
  shows "rss_surr_stats zr (map fst (triu_pairs n)) (map snd (triu_pairs n)) =
     (case np_min (concat (ets_of n zr)) of
        Inl e \<Rightarrow> Inl e
      | Inr lo \<Rightarrow>
          (case np_max (concat (ets_of n zr)) of
             Inl e \<Rightarrow> Inl e
           | Inr hi \<Rightarrow> Inr (rss_of (ets_of n zr), lo, hi)))"
  unfolding rss_surr_stats_def Let_def by (simp only: edge_products_eq [OF assms] sum.case)

lemma concat_ets_of_small: "n < 2 \<Longrightarrow> concat (ets_of n zr) = []"
  by (simp add: ets_of_def triu_pairs_small)

lemma triu_pairs_nonempty: "2 \<le> n \<Longrightarrow> triu_pairs n \<noteq> []"
proof -
  assume "2 \<le> n"
  then have "0 < n" and "1 < n" by simp_all
  then have "(0, 1) \<in> set (triu_pairs n)"
    unfolding triu_pairs_def by (auto intro!: bexI [of _ 0])
  then show ?thesis by auto
qed

lemma concat_ets_of_nonempty: "2 \<le> n \<Longrightarrow> zr \<noteq> [] \<Longrightarrow> concat (ets_of n zr) \<noteq> []"
  using triu_pairs_nonempty [of n] by (cases zr) (simp_all add: ets_of_def)

lemma np_min_defined: "xs \<noteq> [] \<Longrightarrow> \<exists>lo. np_min xs = Inr lo"
  by (cases xs) (simp_all add: np_min_def)

lemma np_max_defined: "xs \<noteq> [] \<Longrightarrow> \<exists>hi. np_max xs = Inr hi"
  by (cases xs) (simp_all add: np_max_def)

text \<open>
  Claim C8, as the program behaves. No shape is checked. For every matrix of T rows and N
  columns, also with T or N below 2, the edge series is computed without error, row
  \<open>t\<close> holding the products \<open>y[t][i] * y[t][j]\<close> of the N (N - 1) / 2 pairs \<open>i < j\<close>, and
  so is the RSS, one value per row. With fewer than two nodes there is no edge, the RSS
  is zero at every time point, and a surrogate trial raises ValueError at the least
  entry of its empty edge series, after the edge series and the RSS were computed. With
  at least two nodes and at least one time point a trial returns its RSS and the least
  and greatest edge value.
\<close>

theorem shape_unchecked_edge_series:
  assumes "\<forall>row\<in>set y. length row = n" and "\<forall>row\<in>set zr. length row = n"
  shows "calculate_ets y n = Inr (ets_of n y, map fst (triu_pairs n), map snd (triu_pairs n))
       \<and> length (ets_of n y) = length y
       \<and> (\<forall>t<length y. ets_of n y ! t = map (\<lambda>(i, j). y ! t ! i * y ! t ! j) (triu_pairs n))
       \<and> length (triu_pairs n) = n * (n - 1) div 2
       \<and> length (rss_of (ets_of n y)) = length y
       \<and> (n < 2 \<longrightarrow>
            rss_of (ets_of n y) = replicate (length y) 0
          \<and> rss_surr_stats zr (map fst (triu_pairs n)) (map snd (triu_pairs n)) = Inl ValueError)
       \<and> (2 \<le> n \<and> zr \<noteq> [] \<longrightarrow>
            (\<exists>lo hi. rss_surr_stats zr (map fst (triu_pairs n)) (map snd (triu_pairs n))
                       = Inr (rss_of (ets_of n zr), lo, hi)))"
proof -
  have c: "calculate_ets y n = Inr (ets_of n y, map fst (triu_pairs n), map snd (triu_pairs n))"
    unfolding calculate_ets_def Let_def by (simp only: edge_products_eq [OF assms(1)] sum.case)
  have l: "length (ets_of n y) = length y" by (simp add: ets_of_def)
  have e: "\<forall>t<length y. ets_of n y ! t = map (\<lambda>(i, j). y ! t ! i * y ! t ! j) (triu_pairs n)"
    by (simp add: ets_of_def)
  have lr: "length (rss_of (ets_of n y)) = length y" by (simp add: rss_of_def l)
  have z: "rss_of (ets_of n y) = replicate (length y) 0" if "n < 2"
    using triu_pairs_small [OF that] by (simp add: rss_of_def ets_of_def map_replicate_const)
  have f: "rss_surr_stats zr (map fst (triu_pairs n)) (map snd (triu_pairs n)) = Inl ValueError"
    if "n < 2"
    unfolding rss_surr_stats_eq [OF assms(2)] concat_ets_of_small [OF that]
    by (simp add: np_min_def)
  have g: "\<exists>lo hi. rss_surr_stats zr (map fst (triu_pairs n)) (map snd (triu_pairs n))
                       = Inr (rss_of (ets_of n zr), lo, hi)"
    if "2 \<le> n" "zr \<noteq> []"
  proof -
    have ne: "concat (ets_of n zr) \<noteq> []" by (rule concat_ets_of_nonempty [OF that])
    obtain lo hi where "np_min (concat (ets_of n zr)) = Inr lo" "np_max (concat (ets_of n zr)) = Inr hi"
      using np_min_defined [OF ne] np_max_defined [OF ne] by blast
    then show ?thesis unfolding rss_surr_stats_eq [OF assms(2)] by simp
  qed
  show ?thesis
  proof (intro conjI impI)
    show "calculate_ets y n = Inr (ets_of n y, map fst (triu_pairs n), map snd (triu_pairs n))"
      by (rule c)
    show "length (ets_of n y) = length y" by (rule l)
    show "\<forall>t<length y. ets_of n y ! t = map (\<lambda>(i, j). y ! t ! i * y ! t ! j) (triu_pairs n)"
      by (rule e)
    show "length (triu_pairs n) = n * (n - 1) div 2" by (rule length_triu_pairs)
    show "length (rss_of (ets_of n y)) = length y" by (rule lr)
    show "rss_of (ets_of n y) = replicate (length y) 0" if "n < 2" by (rule z [OF that])
    show "rss_surr_stats zr (map fst (triu_pairs n)) (map snd (triu_pairs n)) = Inl ValueError"
      if "n < 2" by (rule f [OF that])
    show "\<exists>lo hi. rss_surr_stats zr (map fst (triu_pairs n)) (map snd (triu_pairs n))
                       = Inr (rss_of (ets_of n zr), lo, hi)"
      if "2 \<le> n \<and> zr \<noteq> []" using g that by blast
  qed
qed

theorem shape_unchecked_edge_series_witness:
  "calculate_ets [[3]] 1 = Inr (ets_of 1 [[3]], map fst (triu_pairs 1), map snd (triu_pairs 1))
   \<and> rss_of (ets_of 1 [[3]]) = replicate (length [[3 :: real]]) 0
   \<and> rss_surr_stats [[5]] (map fst (triu_pairs 1)) (map snd (triu_pairs 1)) = Inl ValueError
   \<and> (\<exists>lo hi. rss_surr_stats [[1, 1]] (map fst (triu_pairs 2)) (map snd (triu_pairs 2))
                 = Inr (rss_of (ets_of 2 [[1, 1]]), lo, hi))"
proof -
  have h1: "\<forall>row\<in>set [[3 :: real]]. length row = 1" by simp
  have h2: "\<forall>row\<in>set [[5 :: real]]. length row = 1" by simp
  have h3: "\<forall>row\<in>set [[1, 1 :: real]]. length row = 2" by simp
  have a: "(1::nat) < 2" by simp
  have b: "(2::nat) \<le> 2 \<and> [[1, 1 :: real]] \<noteq> []" by simp
  note t1 = shape_unchecked_edge_series [OF h1 h2]
  note t2 = shape_unchecked_edge_series [OF h3 h3]
  have c1: "calculate_ets [[3]] 1 = Inr (ets_of 1 [[3]], map fst (triu_pairs 1), map snd (triu_pairs 1))"
    using t1 by (rule conjunct1)
  have c2: "rss_of (ets_of 1 [[3]]) = replicate (length [[3 :: real]]) 0
          \<and> rss_surr_stats [[5]] (map fst (triu_pairs 1)) (map snd (triu_pairs 1)) = Inl ValueError"
    using t1 a by blast
  have c3: "\<exists>lo hi. rss_surr_stats [[1, 1]] (map fst (triu_pairs 2)) (map snd (triu_pairs 2))
                 = Inr (rss_of (ets_of 2 [[1, 1]]), lo, hi)"
    using t2 b by blast
  show ?thesis using c1 c2 c3 by blast
qed

text \<open>
  One time point and one node: an edge series of one empty row and the RSS 0 are
  returned, and no exception.
\<close>

theorem no_invalid_input_shape_counterexample:
  "calculate_ets [[3]] 1 = Inr ([[]], [], []) \<and> rss_of [[]] = [0]"
  by (simp add: calculate_ets_def triu_pairs_def take_cols_def take_at_def rss_of_def)

subsection \<open>Non-finite values of a surrogate series\<close>









end
